theory Spec2Isabelle
  imports Main
begin

section \<open>Python string primitives\<close>

text \<open>
  A Python \<open>str\<close> is modelled as a \<open>string\<close>; one \<open>char\<close> stands for one code point
  in the range 0..255, and the character classes below are those of Python 3 on that
  range. Code points above 255 are outside the model.
\<close>

definition LF :: char where "LF = CHR 0x0A"
definition CR :: char where "CR = CHR 0x0D"
definition TAB :: char where "TAB = CHR 0x09"

text \<open>\<open>str.isspace\<close> on one character (what \<open>str.strip()\<close> removes).\<close>

definition isspace :: "char \<Rightarrow> bool" where
  "isspace c = (c \<in> set [CHR 0x09, CHR 0x0A, CHR 0x0B, CHR 0x0C, CHR 0x0D, CHR 0x1C,
                         CHR 0x1D, CHR 0x1E, CHR 0x1F, CHR 0x20, CHR 0x85, CHR 0xA0])"

text \<open>The line boundaries of \<open>str.splitlines\<close> other than the pair CR LF.\<close>

definition is_linebreak :: "char \<Rightarrow> bool" where
  "is_linebreak c = (c \<in> set [CHR 0x0A, CHR 0x0B, CHR 0x0C, CHR 0x0D, CHR 0x1C,
                              CHR 0x1D, CHR 0x1E, CHR 0x85])"

text \<open>\<open>str.isdigit\<close> on one character: the decimal digits and the superscripts 1, 2, 3.\<close>

definition isdigit_char :: "char \<Rightarrow> bool" where
  "isdigit_char c = (let n = (of_char c :: nat) in
     (48 \<le> n \<and> n \<le> 57) \<or> n = 178 \<or> n = 179 \<or> n = 185)"

text \<open>The class \<open>\w\<close> of the \<open>re\<close> module on a \<open>str\<close> pattern: alphanumerics and underscore.\<close>

definition isword :: "char \<Rightarrow> bool" where
  "isword c = (let n = (of_char c :: nat) in
     (48 \<le> n \<and> n \<le> 57) \<or> (65 \<le> n \<and> n \<le> 90) \<or> n = 95 \<or> (97 \<le> n \<and> n \<le> 122)
     \<or> n = 170 \<or> n = 178 \<or> n = 179 \<or> n = 181 \<or> n = 185 \<or> n = 186
     \<or> n = 188 \<or> n = 189 \<or> n = 190
     \<or> (192 \<le> n \<and> n \<le> 214) \<or> (216 \<le> n \<and> n \<le> 246) \<or> (248 \<le> n \<and> n \<le> 255))"

text \<open>\<open>s.isdigit()\<close>: every character is a digit and there is at least one.\<close>

definition isdigit :: "string \<Rightarrow> bool" where
  "isdigit s = (s \<noteq> [] \<and> list_all isdigit_char s)"

text \<open>\<open>s.startswith(p)\<close>.\<close>

fun startswith :: "string \<Rightarrow> string \<Rightarrow> bool" where
  "startswith s [] = True"
| "startswith [] (p # ps) = False"
| "startswith (c # cs) (p # ps) = (c = p \<and> startswith cs ps)"

text \<open>\<open>k in s\<close> for strings: \<open>k\<close> occurs in \<open>s\<close> as a contiguous substring.\<close>

fun contains :: "string \<Rightarrow> string \<Rightarrow> bool" where
  "contains [] k = (k = [])"
| "contains (c # cs) k = (startswith (c # cs) k \<or> contains cs k)"

text \<open>\<open>s.strip()\<close>: leading and trailing whitespace removed.\<close>

definition strip :: "string \<Rightarrow> string" where
  "strip s = rev (dropWhile isspace (rev (dropWhile isspace s)))"

text \<open>\<open>s.replace(c, '')\<close> for a one-character \<open>c\<close>.\<close>

definition remove_char :: "char \<Rightarrow> string \<Rightarrow> string" where
  "remove_char c s = filter (\<lambda>x. x \<noteq> c) s"

text \<open>
  \<open>content.splitlines(keepends=True)\<close>: the text is cut after every line boundary, CR LF
  counting as one boundary; each line keeps its terminator, and a text that ends with a
  terminator has no empty last line. The first argument is the line being collected.
\<close>

fun splitlines_from :: "string \<Rightarrow> string \<Rightarrow> string list" where
  "splitlines_from cur [] = (if cur = [] then [] else [cur])"
| "splitlines_from cur [c] = [cur @ [c]]"
| "splitlines_from cur (c # d # ds) =
     (if c = CR \<and> d = LF then (cur @ [c, d]) # splitlines_from [] ds
      else if is_linebreak c then (cur @ [c]) # splitlines_from [] (d # ds)
      else splitlines_from (cur @ [c]) (d # ds))"

definition splitlines :: "string \<Rightarrow> string list" where
  "splitlines content = splitlines_from [] content"

text \<open>\<open>re.findall(r'\w+', s)\<close>: the maximal runs of word characters, left to right.
  The first argument is the run being collected.\<close>

fun word_runs :: "string \<Rightarrow> string \<Rightarrow> string list" where
  "word_runs cur [] = (if cur = [] then [] else [cur])"
| "word_runs cur (c # cs) =
     (if isword c then word_runs (cur @ [c]) cs
      else (if cur = [] then [] else [cur]) @ word_runs [] cs)"

definition findall_words :: "string \<Rightarrow> string list" where
  "findall_words s = word_runs [] s"

section \<open>The marker parser\<close>

text \<open>One entry of the list that \<open>parse_conflict_markers\<close> returns.\<close>

record marker =
  start_line :: nat
  end_line :: nat
  ours :: string
  theirs :: string
  ours_label :: string
  theirs_label :: string

text \<open>
  Python's truth value of \<open>separator_idx\<close> and \<open>end_idx\<close>: \<open>None\<close> and the index 0
  are both false.
\<close>

fun truthy :: "nat option \<Rightarrow> bool" where
  "truthy None = False"
| "truthy (Some n) = (n \<noteq> 0)"

text \<open>
  The two inner loops of \<open>parse_conflict_markers\<close> have one shape: from index \<open>i\<close>,
  append lines to the accumulator until a line starts with the token, then record its
  index and break. The result is the recorded index (\<open>None\<close> when the input ran out),
  the value of \<open>i\<close> after the loop, and the accumulator.
\<close>

function collect_until ::
  "string \<Rightarrow> string list \<Rightarrow> nat \<Rightarrow> string list \<Rightarrow> nat option \<times> nat \<times> string list" where
  "collect_until token lines i acc =
     (if i < length lines then
        if startswith (lines ! i) token then (Some i, i, acc)
        else collect_until token lines (i + 1) (acc @ [lines ! i])
      else (None, i, acc))"
  by pat_completeness auto
termination
  by (relation "measure (\<lambda>(token, lines, i, acc). length lines - i)") auto

declare collect_until.simps [simp del]

text \<open>
  The body of the outer loop at an opening marker on line index \<open>start\<close>: the block, if
  both the separator and the closing marker were found, and the value of \<open>i\<close> before the
  final \<open>i += 1\<close>.
\<close>

definition conflict_at :: "string list \<Rightarrow> nat \<Rightarrow> marker option \<times> nat" where
  "conflict_at lines start =
     (let (separator_idx, i1, ours_lines) = collect_until ''======='' lines (start + 1) [];
          (end_idx, i2, theirs_lines) =
             (if truthy separator_idx then collect_until ''>>>>>>>'' lines (i1 + 1) []
              else (None, i1, []))
      in if truthy separator_idx \<and> truthy end_idx then
           (Some \<lparr> start_line = start + 1,
                   end_line = the end_idx + 1,
                   ours = concat ours_lines,
                   theirs = concat theirs_lines,
                   ours_label = strip (lines ! start),
                   theirs_label = strip (lines ! the end_idx) \<rparr>, i2)
         else (None, i2))"

lemma collect_until_index_ge: "i \<le> fst (snd (collect_until token lines i acc))"
proof (induction token lines i acc rule: collect_until.induct)
  case (1 token lines i acc)
  show ?case
  proof (cases "i < length lines \<and> \<not> startswith (lines ! i) token")
    case True
    with 1 have "i + 1 \<le> fst (snd (collect_until token lines (i + 1) (acc @ [lines ! i])))"
      by simp
    with True show ?thesis by (subst collect_until.simps) simp
  next
    case False
    then show ?thesis by (subst collect_until.simps) auto
  qed
qed

lemma conflict_at_index_gt: "start < snd (conflict_at lines start)"
proof -
  obtain s i1 ol where c1: "collect_until ''======='' lines (start + 1) [] = (s, i1, ol)"
    by (metis prod_cases3)
  have g1: "start + 1 \<le> i1"
    using collect_until_index_ge [of "start + 1" "''=======''" lines "[]"] c1 by simp
  show ?thesis
  proof (cases "truthy s")
    case False
    with c1 g1 show ?thesis by (simp add: conflict_at_def)
  next
    case True
    obtain e i2 tl where c2: "collect_until ''>>>>>>>'' lines (i1 + 1) [] = (e, i2, tl)"
      by (metis prod_cases3)
    have "i1 + 1 \<le> i2"
      using collect_until_index_ge [of "i1 + 1" "''>>>>>>>''" lines "[]"] c2 by simp
    with True c1 c2 g1 show ?thesis by (simp add: conflict_at_def)
  qed
qed

text \<open>
  The outer loop of \<open>parse_conflict_markers\<close>, from line index \<open>i\<close> with the blocks
  found so far.
\<close>

function scan_conflicts :: "string list \<Rightarrow> nat \<Rightarrow> marker list \<Rightarrow> marker list" where
  "scan_conflicts lines i conflicts =
     (if i < length lines then
        if startswith (lines ! i) ''<<<<<<<'' then
          scan_conflicts lines (snd (conflict_at lines i) + 1)
            (case fst (conflict_at lines i) of
               Some block \<Rightarrow> conflicts @ [block]
             | None \<Rightarrow> conflicts)
        else scan_conflicts lines (i + 1) conflicts
      else conflicts)"
  by pat_completeness auto
termination
proof (relation "measure (\<lambda>(lines, i, conflicts). length lines - i)")
  fix lines :: "string list" and i :: nat and conflicts :: "marker list"
  assume "i < length lines"
  then show "((lines, snd (conflict_at lines i) + 1,
               case fst (conflict_at lines i) of None \<Rightarrow> conflicts
               | Some block \<Rightarrow> conflicts @ [block]), lines, i, conflicts)
             \<in> measure (\<lambda>(lines, i, conflicts). length lines - i)"
    using conflict_at_index_gt [of i lines] by simp
qed auto

declare scan_conflicts.simps [simp del]

definition parse_conflict_markers :: "string \<Rightarrow> marker list" where
  "parse_conflict_markers content = scan_conflicts (splitlines content) 0 []"

text \<open>A line that starts with one of the three marker tokens.\<close>

definition is_marker_line :: "string \<Rightarrow> bool" where
  "is_marker_line l =
     (startswith l ''<<<<<<<'' \<or> startswith l ''======='' \<or> startswith l ''>>>>>>>'')"

text \<open>
  A block is delimited in the lines of the text, with the separator on line index \<open>s\<close>
  (0-based): its \<open>start_line\<close> is the 1-based number of an opening-marker line, \<open>s\<close> is a
  later separator line, its \<open>end_line\<close> is the 1-based number of a still later
  closing-marker line, \<open>ours\<close> is the text of the lines strictly between the first two,
  none of which is a separator line, and \<open>theirs\<close> is the text of the lines strictly
  between the last two, none of which is a closing-marker line.
\<close>

definition delimited :: "string list \<Rightarrow> marker \<Rightarrow> nat \<Rightarrow> bool" where
  "delimited lines b s =
     (1 \<le> start_line b \<and> start_line b \<le> s \<and> s + 1 < end_line b \<and> end_line b \<le> length lines
      \<and> startswith (lines ! (start_line b - 1)) ''<<<<<<<''
      \<and> startswith (lines ! s) ''=======''
      \<and> startswith (lines ! (end_line b - 1)) ''>>>>>>>''
      \<and> (let ours_lines = take (s - start_line b) (drop (start_line b) lines);
              theirs_lines = take (end_line b - 1 - (s + 1)) (drop (s + 1) lines)
          in ours b = concat ours_lines \<and> theirs b = concat theirs_lines
             \<and> list_all (\<lambda>l. \<not> startswith l ''======='') ours_lines
             \<and> list_all (\<lambda>l. \<not> startswith l ''>>>>>>>'') theirs_lines))"

section \<open>Reading files\<close>

text \<open>
  \<open>open(filepath, 'r', encoding='utf-8').read()\<close>: the file system gives, for a path,
  either the text that \<open>read()\<close> returns or the message of the exception that opening or
  reading the file raises.
\<close>

type_synonym filesystem = "string \<Rightarrow> string + string"






text \<open>
  The \<open>markers\<close> entry of \<open>extract_three_way\<close>: the parsed blocks of the working-tree
  file, or the empty list when the file cannot be read. The three stage blobs, which come
  from the version-control tool, play no part in what follows and are left out.
\<close>

definition extract_three_way_markers :: "filesystem \<Rightarrow> string \<Rightarrow> marker list" where
  "extract_three_way_markers fs path =
     (case fs path of
        Inr content \<Rightarrow> parse_conflict_markers content
      | Inl e \<Rightarrow> [])"

section \<open>The dependency scanner\<close>

text \<open>
  The four regular expressions of \<open>analyze_dependencies\<close>, by name. \<open>re.findall\<close> itself
  belongs to the Python library and is a parameter of the model: given a pattern and the
  text it returns the list of matches.
\<close>

datatype pattern = ImportPattern | FromImportPattern | IncludePattern | FuncPattern

definition import_patterns :: "pattern list" where
  "import_patterns = [ImportPattern, FromImportPattern, IncludePattern]"

record dependencies =
  dep_imports :: "string list"
  dep_functions :: "string list"
  dep_variables :: "string list"

definition analyze_dependencies ::
  "(pattern \<Rightarrow> string \<Rightarrow> string list) \<Rightarrow> filesystem \<Rightarrow> string \<Rightarrow> dependencies" where
  "analyze_dependencies re_findall fs path =
     (case fs path of
        Inl e \<Rightarrow> \<lparr> dep_imports = [], dep_functions = [], dep_variables = [] \<rparr>
      | Inr content \<Rightarrow>
          (let found = concat (map (\<lambda>p. re_findall p content) import_patterns);
               functions = re_findall FuncPattern content
           in \<lparr> dep_imports = take 20 found,
                dep_functions = take 20 functions,
                dep_variables = [] \<rparr>))"

section \<open>The conflict classifier\<close>

datatype conflict_type =
  IMPORT | WHITESPACE | RENAME | REFACTOR | LOGIC | FUNCTION_SIGNATURE | UNKNOWN

datatype difficulty = EASY | MEDIUM | HARD | ESCALATE

text \<open>\<open>order.index(self.value)\<close> in \<open>Difficulty.__lt__\<close>.\<close>

fun order_index :: "difficulty \<Rightarrow> nat" where
  "order_index EASY = 0"
| "order_index MEDIUM = 1"
| "order_index HARD = 2"
| "order_index ESCALATE = 3"

definition difficulty_lt :: "difficulty \<Rightarrow> difficulty \<Rightarrow> bool" where
  "difficulty_lt a b = (order_index a < order_index b)"

text \<open>Python's \<open>max(a, b)\<close> on difficulties: \<open>b\<close> only when \<open>a < b\<close>.\<close>

definition max_of :: "difficulty \<Rightarrow> difficulty \<Rightarrow> difficulty" where
  "max_of a b = (if difficulty_lt a b then b else a)"

definition import_keywords :: "string list" where
  "import_keywords = [''import '', ''from '', ''#include'', ''require('']"

definition definition_keywords :: "string list" where
  "definition_keywords = [''def '', ''function '', ''func '', ''class '']"

text \<open>\<open>a.symmetric_difference(b)\<close> on sets.\<close>

definition symmetric_difference :: "'a set \<Rightarrow> 'a set \<Rightarrow> 'a set" where
  "symmetric_difference a b = (a - b) \<union> (b - a)"

text \<open>
  One turn of the loop over the markers: the state is the list of block types so far and
  the running maximum difficulty. Each \<open>continue\<close> is a branch that returns.
\<close>

definition categorize_step ::
  "marker \<Rightarrow> conflict_type list \<times> difficulty \<Rightarrow> conflict_type list \<times> difficulty" where
  "categorize_step marker st =
     (case st of (conflict_types, max_difficulty) \<Rightarrow>
       (let ours_s = strip (ours marker);
            theirs_s = strip (theirs marker)
        in if list_ex (\<lambda>keyword. contains (ours_s @ theirs_s) keyword) import_keywords
           then (conflict_types @ [IMPORT], max_difficulty)
           else if remove_char LF (remove_char TAB (remove_char (CHR '' '') ours_s))
                 = remove_char LF (remove_char TAB (remove_char (CHR '' '') theirs_s))
           then (conflict_types @ [WHITESPACE], max_difficulty)
           else if list_ex (\<lambda>keyword. contains (ours_s @ theirs_s) keyword) definition_keywords
           then (conflict_types @ [FUNCTION_SIGNATURE], max_of max_difficulty MEDIUM)
           else
             (let ours_words = set (findall_words ours_s);
                  theirs_words = set (findall_words theirs_s);
                  diff = symmetric_difference ours_words theirs_words;
                  is_numeric_change = (\<exists>d \<in> diff. isdigit d)
              in if \<not> is_numeric_change \<and> card diff < 3 \<and> card ours_words > 0
                 then (conflict_types @ [RENAME], max_of max_difficulty MEDIUM)
                 else (conflict_types @ [LOGIC], HARD))))"

fun categorize_loop ::
  "marker list \<Rightarrow> conflict_type list \<times> difficulty \<Rightarrow> conflict_type list \<times> difficulty" where
  "categorize_loop [] st = st"
| "categorize_loop (marker # markers) st = categorize_loop markers (categorize_step marker st)"

text \<open>
  The classifier's answer. The keys \<open>all_types\<close> and \<open>num_conflicts\<close> are absent from
  the answer for a file without blocks, and \<open>reason\<close> is present only there.
\<close>

record verdict =
  type :: conflict_type
  difficulty :: difficulty
  auto_resolvable :: bool
  all_types :: "conflict_type list option"
  num_conflicts :: "nat option"
  reason :: "string option"

definition priority :: "conflict_type list" where
  "priority = [LOGIC, FUNCTION_SIGNATURE, REFACTOR, RENAME, IMPORT, WHITESPACE]"

definition categorize_markers :: "marker list \<Rightarrow> verdict" where
  "categorize_markers markers =
     (if markers = [] then
        \<lparr> type = UNKNOWN, difficulty = MEDIUM, auto_resolvable = False,
          all_types = None, num_conflicts = None,
          reason = Some ''No conflict markers found'' \<rparr>
      else
        (let (conflict_types, max_difficulty) = categorize_loop markers ([], EASY);
             primary_type =
               (if conflict_types = [] then UNKNOWN
                else (case find (\<lambda>t. t \<in> set conflict_types) priority of
                        Some t \<Rightarrow> t
                      | None \<Rightarrow> conflict_types ! 0));
             auto = list_all (\<lambda>t. t \<in> set [IMPORT, WHITESPACE]) conflict_types;
             final_difficulty =
               (if primary_type = LOGIC
                then (if length markers > 3 then ESCALATE else HARD)
                else max_difficulty)
         in \<lparr> type = primary_type, difficulty = final_difficulty, auto_resolvable = auto,
              all_types = Some conflict_types, num_conflicts = Some (length markers),
              reason = None \<rparr>))"

definition categorize_conflict :: "filesystem \<Rightarrow> string \<Rightarrow> verdict" where
  "categorize_conflict fs path = categorize_markers (extract_three_way_markers fs path)"

text \<open>The type that the loop body appends for one block.\<close>

definition block_type :: "marker \<Rightarrow> conflict_type" where
  "block_type marker = last (fst (categorize_step marker ([], EASY)))"

section \<open>The validation gate\<close>





section \<open>Facts about the marker parser\<close>

lemma drop_eq_ConsD:
  assumes "drop i xs = y # ys"
  shows "i < length xs \<and> xs ! i = y \<and> drop (Suc i) xs = ys"
proof -
  have lt: "i < length xs" using assms by (cases "i < length xs") auto
  then have "drop i xs = xs ! i # drop (Suc i) xs" by (simp add: Cons_nth_drop_Suc)
  with assms lt show ?thesis by simp
qed

lemma collect_until_found:
  assumes "drop i lines = xs @ y # rest" and "\<forall>x \<in> set xs. \<not> startswith x token"
    and "startswith y token"
  shows "collect_until token lines i acc = (Some (i + length xs), i + length xs, acc @ xs)"
  using assms
proof (induction xs arbitrary: i acc)
  case Nil
  then have "i < length lines \<and> lines ! i = y" using drop_eq_ConsD [of i lines y rest] by simp
  with Nil show ?case by (subst collect_until.simps) simp
next
  case (Cons x xs)
  from Cons.prems(1) have d: "i < length lines \<and> lines ! i = x \<and> drop (Suc i) lines = xs @ y # rest"
    using drop_eq_ConsD [of i lines x "xs @ y # rest"] by simp
  have "collect_until token lines (Suc i) (acc @ [x]) =
        (Some (Suc i + length xs), Suc i + length xs, (acc @ [x]) @ xs)"
    using Cons.IH [of "Suc i" "acc @ [x]"] d Cons.prems by simp
  with d Cons.prems(2) show ?case by (subst collect_until.simps) simp
qed

lemma collect_until_missing:
  assumes "\<forall>x \<in> set (drop i lines). \<not> startswith x token"
  shows "collect_until token lines i acc = (None, max i (length lines), acc @ drop i lines)"
  using assms
proof (induction token lines i acc rule: collect_until.induct)
  case (1 token lines i acc)
  show ?case
  proof (cases "i < length lines")
    case False
    then show ?thesis by (subst collect_until.simps) simp
  next
    case True
    then have d: "drop i lines = lines ! i # drop (Suc i) lines" by (simp add: Cons_nth_drop_Suc)
    with "1.prems" have n: "\<not> startswith (lines ! i) token"
      and r: "\<forall>x \<in> set (drop (i + 1) lines). \<not> startswith x token" by simp_all
    have "collect_until token lines (i + 1) (acc @ [lines ! i]) =
          (None, max (i + 1) (length lines), (acc @ [lines ! i]) @ drop (i + 1) lines)"
      using "1.IH" [OF True n r] .
    with True n d show ?thesis by (subst collect_until.simps) (simp add: max_def)
  qed
qed

lemma collect_until_SomeD:
  assumes "collect_until token lines i acc = (Some k, i', acc')"
  shows "i \<le> k \<and> k < length lines \<and> i' = k \<and> startswith (lines ! k) token
         \<and> acc' = acc @ take (k - i) (drop i lines)
         \<and> (\<forall>x \<in> set (take (k - i) (drop i lines)). \<not> startswith x token)"
  using assms
proof (induction token lines i acc rule: collect_until.induct)
  case (1 token lines i acc)
  show ?case
  proof (cases "i < length lines")
    case False
    with "1.prems" show ?thesis by (subst (asm) collect_until.simps) simp
  next
    case True
    show ?thesis
    proof (cases "startswith (lines ! i) token")
      case yes: True
      with True "1.prems" show ?thesis by (subst (asm) collect_until.simps) auto
    next
      case no: False
      with True "1.prems" have
        "collect_until token lines (i + 1) (acc @ [lines ! i]) = (Some k, i', acc')"
        by (subst (asm) collect_until.simps) simp
      from "1.IH" [OF True no this] have ih:
        "i + 1 \<le> k" "k < length lines" "i' = k" "startswith (lines ! k) token"
        "acc' = (acc @ [lines ! i]) @ take (k - (i + 1)) (drop (i + 1) lines)"
        "\<forall>x \<in> set (take (k - (i + 1)) (drop (i + 1) lines)). \<not> startswith x token"
        by simp_all
      have t: "take (k - i) (drop i lines) = lines ! i # take (k - (i + 1)) (drop (i + 1) lines)"
      proof -
        have "drop i lines = lines ! i # drop (Suc i) lines"
          using True by (simp add: Cons_nth_drop_Suc)
        moreover have "k - i = Suc (k - (i + 1))" using ih(1) by simp
        ultimately show ?thesis by simp
      qed
      from ih t no show ?thesis by simp
    qed
  qed
qed

lemma scan_conflicts_end: "length lines \<le> i \<Longrightarrow> scan_conflicts lines i conflicts = conflicts"
  by (subst scan_conflicts.simps) simp

lemma scan_conflicts_skip:
  assumes "drop i lines = xs @ rest" and "\<forall>x \<in> set xs. \<not> startswith x ''<<<<<<<''"
  shows "scan_conflicts lines i conflicts = scan_conflicts lines (i + length xs) conflicts"
  using assms
proof (induction xs arbitrary: i)
  case Nil
  then show ?case by simp
next
  case (Cons x xs)
  from Cons.prems(1) have d: "i < length lines \<and> lines ! i = x \<and> drop (Suc i) lines = xs @ rest"
    using drop_eq_ConsD [of i lines x "xs @ rest"] by simp
  have "scan_conflicts lines (Suc i) conflicts = scan_conflicts lines (Suc i + length xs) conflicts"
    using Cons.IH [of "Suc i"] d Cons.prems(2) by simp
  with d Cons.prems(2) show ?case by (subst scan_conflicts.simps) simp
qed

lemma conflict_at_no_separator:
  assumes "\<forall>l \<in> set (drop (i + 1) lines). \<not> startswith l ''======='' "
  shows "conflict_at lines i = (None, max (i + 1) (length lines))"
  using collect_until_missing [OF assms, of "[]"] by (simp add: conflict_at_def)

lemma conflict_at_no_closing:
  assumes d: "drop (i + 1) lines = ours_lines @ sep_line # rest"
    and o: "\<forall>l \<in> set ours_lines. \<not> startswith l ''======='' "
    and s: "startswith sep_line ''======='' "
    and r: "\<forall>l \<in> set rest. \<not> startswith l ''>>>>>>>''"
  shows "conflict_at lines i = (None, length lines)"
proof -
  define k where "k = i + 1 + length ours_lines"
  have c1: "collect_until ''======='' lines (Suc i) [] = (Some k, k, ours_lines)"
    using collect_until_found [OF d o s, of "[]"] by (simp add: k_def)
  have "drop (length ours_lines + 1) (drop (i + 1) lines) = rest" unfolding d by simp
  then have dk: "drop (k + 1) lines = rest" by (simp add: k_def ac_simps)
  have "k < length lines"
  proof -
    have "length (drop (i + 1) lines) = length ours_lines + 1 + length rest" unfolding d by simp
    then show ?thesis by (simp add: k_def)
  qed
  then have m: "max (k + 1) (length lines) = length lines" by simp
  have c2: "collect_until ''>>>>>>>'' lines (Suc k) [] = (None, length lines, rest)"
    using collect_until_missing [of "k + 1" lines "''>>>>>>>''" "[]"] r dk m by simp
  have "k \<noteq> 0" by (simp add: k_def)
  then show ?thesis by (simp add: conflict_at_def c1 c2)
qed

lemma conflict_at_SomeD:
  assumes "conflict_at lines i = (Some b, i2)" and op: "startswith (lines ! i) ''<<<<<<<''"
  shows "\<exists>s. delimited lines b s" and "start_line b = i + 1" and "i < i2"
proof -
  obtain so i1 ol where c1: "collect_until ''======='' lines (Suc i) [] = (so, i1, ol)"
    by (metis prod_cases3)
  from assms c1 have ts: "truthy so" by (auto simp: conflict_at_def split: if_splits)
  then obtain s where so: "so = Some s" by (cases so) auto
  from collect_until_SomeD [OF c1 [unfolded so]] have s:
    "Suc i \<le> s" "s < length lines" "i1 = s" "startswith (lines ! s) ''======='' "
    "ol = take (s - Suc i) (drop (Suc i) lines)"
    "\<forall>x \<in> set (take (s - Suc i) (drop (Suc i) lines)). \<not> startswith x ''======='' "
    by simp_all
  obtain eo i2' tl where c2: "collect_until ''>>>>>>>'' lines (Suc s) [] = (eo, i2', tl)"
    by (metis prod_cases3)
  from assms c1 c2 so s(3) ts have te: "truthy eo"
    by (auto simp: conflict_at_def split: if_splits)
  then obtain e where eo: "eo = Some e" by (cases eo) auto
  from collect_until_SomeD [OF c2 [unfolded eo]] have e:
    "Suc s \<le> e" "e < length lines" "i2' = e" "startswith (lines ! e) ''>>>>>>>''"
    "tl = take (e - Suc s) (drop (Suc s) lines)"
    "\<forall>x \<in> set (take (e - Suc s) (drop (Suc s) lines)). \<not> startswith x ''>>>>>>>''"
    by simp_all
  have b: "b = \<lparr> start_line = i + 1, end_line = e + 1, ours = concat ol, theirs = concat tl,
                 ours_label = strip (lines ! i), theirs_label = strip (lines ! e) \<rparr>"
    and i2: "i2 = e"
    using assms c1 c2 so eo s(3) e(3) ts te by (auto simp: conflict_at_def)
  have "delimited lines b s"
    using s e op by (simp add: b delimited_def list_all_iff)
  then show "\<exists>s. delimited lines b s" ..
  show "start_line b = i + 1" by (simp add: b)
  show "i < i2" using i2 s(1) e(1) by simp
qed

lemma scan_conflicts_blocks:
  "b \<in> set (scan_conflicts lines i conflicts) \<Longrightarrow> b \<in> set conflicts \<or> (\<exists>s. delimited lines b s)"
proof (induction lines i conflicts rule: scan_conflicts.induct)
  case (1 lines i conflicts)
  show ?case
  proof (cases "i < length lines")
    case False
    with "1.prems" show ?thesis by (simp add: scan_conflicts_end)
  next
    case True
    show ?thesis
    proof (cases "startswith (lines ! i) ''<<<<<<<''")
      case no: False
      with True "1.prems" have "b \<in> set (scan_conflicts lines (i + 1) conflicts)"
        by (subst (asm) scan_conflicts.simps) simp
      from "1.IH"(2) [OF True no this] show ?thesis .
    next
      case yes: True
      define acc where "acc = (case fst (conflict_at lines i) of
               Some block \<Rightarrow> conflicts @ [block] | None \<Rightarrow> conflicts)"
      from True yes "1.prems" have
        "b \<in> set (scan_conflicts lines (snd (conflict_at lines i) + 1) acc)"
        by (subst (asm) scan_conflicts.simps) (simp add: acc_def)
      from "1.IH"(1) [OF True yes this [unfolded acc_def]]
      have "b \<in> set acc \<or> (\<exists>s. delimited lines b s)" by (simp add: acc_def)
      moreover have "b \<in> set acc \<Longrightarrow> b \<in> set conflicts \<or> (\<exists>s. delimited lines b s)"
      proof (cases "fst (conflict_at lines i)")
        case None
        assume "b \<in> set acc"
        with None show ?thesis by (simp add: acc_def)
      next
        case (Some blk)
        assume "b \<in> set acc"
        with Some have "b \<in> set conflicts \<or> b = blk" by (auto simp: acc_def)
        moreover have "conflict_at lines i = (Some blk, snd (conflict_at lines i))"
          using Some by (metis prod.collapse)
        then have "\<exists>s. delimited lines blk s" using yes by (rule conflict_at_SomeD(1))
        ultimately show ?thesis by auto
      qed
      ultimately show ?thesis by auto
    qed
  qed
qed

lemma scan_conflicts_none:
  assumes "\<forall>j. i \<le> j \<and> j < length lines \<and> startswith (lines ! j) ''<<<<<<<''
             \<longrightarrow> fst (conflict_at lines j) = None"
  shows "scan_conflicts lines i conflicts = conflicts"
  using assms
proof (induction lines i conflicts rule: scan_conflicts.induct)
  case (1 lines i conflicts)
  show ?case
  proof (cases "i < length lines")
    case False
    then show ?thesis by (simp add: scan_conflicts_end)
  next
    case True
    show ?thesis
    proof (cases "startswith (lines ! i) ''<<<<<<<''")
      case no: False
      have "scan_conflicts lines (i + 1) conflicts = conflicts"
        using "1.IH"(2) [OF True no] "1.prems" by simp
      with True no show ?thesis by (subst scan_conflicts.simps) simp
    next
      case yes: True
      with True "1.prems" have n: "fst (conflict_at lines i) = None" by simp
      have "i < snd (conflict_at lines i)" by (rule conflict_at_index_gt)
      with "1.prems" have "\<forall>j. snd (conflict_at lines i) + 1 \<le> j \<and> j < length lines
             \<and> startswith (lines ! j) ''<<<<<<<'' \<longrightarrow> fst (conflict_at lines j) = None"
        by simp
      from "1.IH"(1) [OF True yes this]
      have "scan_conflicts lines (snd (conflict_at lines i) + 1) conflicts = conflicts"
        by (simp add: n)
      with True yes n show ?thesis by (subst scan_conflicts.simps) simp
    qed
  qed
qed

lemma conflict_at_none_without_separator:
  assumes "\<forall>l \<in> set (drop i lines). \<not> startswith l ''======='' "
  shows "fst (conflict_at lines i) = None"
proof -
  have "set (drop (i + 1) lines) \<subseteq> set (drop i lines)"
    by (rule set_drop_subset_set_drop) simp
  with assms have "\<forall>l \<in> set (drop (i + 1) lines). \<not> startswith l ''======='' " by blast
  then show ?thesis by (simp add: conflict_at_no_separator)
qed

lemma conflict_at_none_without_closing:
  assumes "\<forall>l \<in> set (drop i lines). \<not> startswith l ''>>>>>>>''"
  shows "fst (conflict_at lines i) = None"
proof -
  obtain so i1 ol where c1: "collect_until ''======='' lines (Suc i) [] = (so, i1, ol)"
    by (metis prod_cases3)
  show ?thesis
  proof (cases so)
    case None
    with c1 show ?thesis by (simp add: conflict_at_def)
  next
    case (Some s)
    from collect_until_SomeD [OF c1 [unfolded Some]] have s: "Suc i \<le> s" "i1 = s" by simp_all
    have "set (drop (s + 1) lines) \<subseteq> set (drop i lines)"
      by (rule set_drop_subset_set_drop) (use s in simp)
    with assms have "\<forall>l \<in> set (drop (s + 1) lines). \<not> startswith l ''>>>>>>>''" by blast
    from collect_until_missing [OF this, of "[]"]
    have "collect_until ''>>>>>>>'' lines (Suc s) [] =
            (None, max (Suc s) (length lines), drop (Suc s) lines)" by simp
    with c1 Some s show ?thesis
      by (simp add: conflict_at_def)
  qed
qed

text \<open>
  Claim C1. When the lines of the text are: lines without markers, an opening-marker line,
  lines without markers, a separator line, lines without markers, a closing-marker line,
  lines without markers, then \<open>parse_conflict_markers\<close> returns exactly one block. Its
  \<open>ours\<close> is the text of the lines strictly between the opening marker and the separator,
  its \<open>theirs\<close> the text of the lines strictly between the separator and the closing
  marker (terminators kept, blank lines included, marker lines excluded), its
  \<open>start_line\<close> the 1-based number of the opening-marker line and its \<open>end_line\<close> the
  1-based number of the closing-marker line.
\<close>

theorem parse_single_triple:
  assumes lines: "splitlines content =
      pre @ [open_line] @ ours_lines @ [sep_line] @ theirs_lines @ [close_line] @ post"
    and op: "startswith open_line ''<<<<<<<''"
    and sp: "startswith sep_line ''=======''"
    and cl: "startswith close_line ''>>>>>>>''"
    and others: "\<forall>l \<in> set (pre @ ours_lines @ theirs_lines @ post). \<not> is_marker_line l"
  shows "parse_conflict_markers content =
     [\<lparr> start_line = length pre + 1,
         end_line = length pre + length ours_lines + length theirs_lines + 3,
         ours = concat ours_lines,
         theirs = concat theirs_lines,
         ours_label = strip open_line,
         theirs_label = strip close_line \<rparr>]"
proof -
  define ls where "ls = splitlines content"
  define n where "n = length pre"
  define s where "s = n + 1 + length ours_lines"
  define e where "e = s + 1 + length theirs_lines"
  have ls: "ls = pre @ open_line # ours_lines @ sep_line # theirs_lines @ close_line # post"
    using lines by (simp add: ls_def)
  have d0: "drop 0 ls = pre @ (open_line # ours_lines @ sep_line # theirs_lines @ close_line # post)"
    by (simp add: ls)
  have dn: "drop n ls = open_line # ours_lines @ sep_line # theirs_lines @ close_line # post"
    by (simp add: ls n_def)
  have d1: "drop (n + 1) ls = ours_lines @ sep_line # (theirs_lines @ close_line # post)"
    by (simp add: ls n_def)
  have d2: "drop (s + 1) ls = theirs_lines @ close_line # post"
    by (simp add: ls n_def s_def)
  have d3: "drop (e + 1) ls = post @ []"
  proof -
    have "drop (length theirs_lines + 1) (drop (s + 1) ls) = post" unfolding d2 by simp
    then show ?thesis by (simp add: e_def ac_simps)
  qed
  have len: "length ls = e + 1 + length post"
    by (simp add: ls n_def s_def e_def)
  have at_n: "n < length ls" "ls ! n = open_line"
    using drop_eq_ConsD [OF dn] by simp_all
  have at_e: "ls ! e = close_line"
    by (simp add: ls n_def s_def e_def nth_append)
  have no_open_pre: "\<forall>x \<in> set pre. \<not> startswith x ''<<<<<<<''"
    and no_sep_ours: "\<forall>x \<in> set ours_lines. \<not> startswith x ''=======''"
    and no_close_theirs: "\<forall>x \<in> set theirs_lines. \<not> startswith x ''>>>>>>>''"
    and no_open_post: "\<forall>x \<in> set post. \<not> startswith x ''<<<<<<<''"
    using others by (auto simp: is_marker_line_def)
  have c1: "collect_until ''======='' ls (Suc n) [] = (Some s, s, ours_lines)"
    using collect_until_found [OF d1 no_sep_ours sp, of "[]"] by (simp add: s_def)
  have c2: "collect_until ''>>>>>>>'' ls (Suc s) [] = (Some e, e, theirs_lines)"
    using collect_until_found [OF d2 no_close_theirs cl, of "[]"] by (simp add: e_def)
  have spos: "s \<noteq> 0" and epos: "e \<noteq> 0" by (simp_all add: s_def e_def)
  have block: "conflict_at ls n =
     (Some \<lparr> start_line = n + 1, end_line = e + 1, ours = concat ours_lines,
             theirs = concat theirs_lines, ours_label = strip open_line,
             theirs_label = strip close_line \<rparr>, e)"
    by (simp add: conflict_at_def c1 c2 spos epos at_n at_e)
  have "scan_conflicts ls 0 [] = scan_conflicts ls n []"
    using scan_conflicts_skip [OF d0 no_open_pre, of "[]"] by (simp add: n_def)
  also have "\<dots> = scan_conflicts ls (e + 1)
     [\<lparr> start_line = n + 1, end_line = e + 1, ours = concat ours_lines,
        theirs = concat theirs_lines, ours_label = strip open_line,
        theirs_label = strip close_line \<rparr>]"
    using at_n op by (subst scan_conflicts.simps) (simp add: block)
  also have "\<dots> = scan_conflicts ls (e + 1 + length post)
     [\<lparr> start_line = n + 1, end_line = e + 1, ours = concat ours_lines,
        theirs = concat theirs_lines, ours_label = strip open_line,
        theirs_label = strip close_line \<rparr>]"
    using scan_conflicts_skip [OF d3 no_open_post] by simp
  also have "\<dots> =
     [\<lparr> start_line = n + 1, end_line = e + 1, ours = concat ours_lines,
        theirs = concat theirs_lines, ours_label = strip open_line,
        theirs_label = strip close_line \<rparr>]"
    using len by (simp add: scan_conflicts_end)
  finally show ?thesis
    by (simp add: parse_conflict_markers_def ls_def [symmetric] n_def s_def e_def)
qed

theorem parse_single_triple_witness:
  "splitlines ''a\<newline><<<<<<< HEAD\<newline>x\<newline>\<newline>y\<newline>=======\<newline>z\<newline>>>>>>>> br\<newline>b\<newline>'' =
     [''a\<newline>''] @ [''<<<<<<< HEAD\<newline>''] @ [''x\<newline>'', ''\<newline>'', ''y\<newline>''] @ [''=======\<newline>'']
       @ [''z\<newline>''] @ [''>>>>>>> br\<newline>''] @ [''b\<newline>'']
   \<and> parse_conflict_markers
       ''a\<newline><<<<<<< HEAD\<newline>x\<newline>\<newline>y\<newline>=======\<newline>z\<newline>>>>>>>> br\<newline>b\<newline>'' =
     [\<lparr> start_line = 2, end_line = 8, ours = ''x\<newline>\<newline>y\<newline>'', theirs = ''z\<newline>'',
        ours_label = ''<<<<<<< HEAD'', theirs_label = ''>>>>>>> br'' \<rparr>]"
proof -
  have h1: "splitlines ''a\<newline><<<<<<< HEAD\<newline>x\<newline>\<newline>y\<newline>=======\<newline>z\<newline>>>>>>>> br\<newline>b\<newline>'' =
     [''a\<newline>''] @ [''<<<<<<< HEAD\<newline>''] @ [''x\<newline>'', ''\<newline>'', ''y\<newline>''] @ [''=======\<newline>'']
       @ [''z\<newline>''] @ [''>>>>>>> br\<newline>''] @ [''b\<newline>'']"
    by (simp add: splitlines_def is_linebreak_def CR_def LF_def)
  have h2: "startswith ''<<<<<<< HEAD\<newline>'' ''<<<<<<<''" by simp
  have h3: "startswith ''=======\<newline>'' ''=======''" by simp
  have h4: "startswith ''>>>>>>> br\<newline>'' ''>>>>>>>''" by simp
  have h5: "\<forall>l \<in> set ([''a\<newline>''] @ [''x\<newline>'', ''\<newline>'', ''y\<newline>''] @ [''z\<newline>''] @ [''b\<newline>'']).
              \<not> is_marker_line l"
    by (simp add: is_marker_line_def)
  show ?thesis
    using parse_single_triple [OF h1 h2 h3 h4 h5] h1
    by (simp add: strip_def isspace_def)
qed

text \<open>
  Claim C7, as the code has it. Every block that \<open>parse_conflict_markers\<close> returns was
  delimited by an opening-marker line, a later separator line and a still later
  closing-marker line; no line of its \<open>ours\<close> content is a separator line and no line of
  its \<open>theirs\<close> content is a closing-marker line. Other marker lines inside a block (an
  opening or closing marker before the separator, an opening marker or a separator after
  it) are kept as content.
\<close>

theorem emitted_block_delimited:
  assumes "b \<in> set (parse_conflict_markers content)"
  shows "\<exists>s. delimited (splitlines content) b s"
  using scan_conflicts_blocks [of b "splitlines content" 0 "[]"] assms
  by (simp add: parse_conflict_markers_def)

theorem emitted_block_delimited_witness:
  "\<lparr> start_line = 1, end_line = 5, ours = ''x\<newline>'', theirs = ''y\<newline>'',
      ours_label = ''<<<<<<< a'', theirs_label = ''>>>>>>> b'' \<rparr>
     \<in> set (parse_conflict_markers ''<<<<<<< a\<newline>x\<newline>=======\<newline>y\<newline>>>>>>>> b\<newline>'')
   \<and> (\<exists>s. delimited (splitlines ''<<<<<<< a\<newline>x\<newline>=======\<newline>y\<newline>>>>>>>> b\<newline>'')
          \<lparr> start_line = 1, end_line = 5, ours = ''x\<newline>'', theirs = ''y\<newline>'',
            ours_label = ''<<<<<<< a'', theirs_label = ''>>>>>>> b'' \<rparr> s)"
proof -
  have h: "\<lparr> start_line = 1, end_line = 5, ours = ''x\<newline>'', theirs = ''y\<newline>'',
      ours_label = ''<<<<<<< a'', theirs_label = ''>>>>>>> b'' \<rparr>
     \<in> set (parse_conflict_markers ''<<<<<<< a\<newline>x\<newline>=======\<newline>y\<newline>>>>>>>> b\<newline>'')"
    by code_simp
  show ?thesis using emitted_block_delimited [OF h] h by blast
qed

text \<open>
  The claim as stated fails: an opening-marker line met while the \<open>ours\<close> side is being
  collected becomes a line of the block's \<open>ours\<close> content.
\<close>

theorem nested_marker_kept_as_content:
  "parse_conflict_markers ''<<<<<<< a\<newline><<<<<<< b\<newline>x\<newline>=======\<newline>y\<newline>>>>>>>> c\<newline>'' =
     [\<lparr> start_line = 1, end_line = 6, ours = ''<<<<<<< b\<newline>x\<newline>'', theirs = ''y\<newline>'',
        ours_label = ''<<<<<<< a'', theirs_label = ''>>>>>>> c'' \<rparr>]
   \<and> splitlines ''<<<<<<< b\<newline>x\<newline>'' = [''<<<<<<< b\<newline>'', ''x\<newline>'']
   \<and> is_marker_line ''<<<<<<< b\<newline>''"
  by code_simp

text \<open>
  Claim C8. When the outer loop stands at an opening marker on line index \<open>i\<close> and either
  no later line is a separator, or the first later separator is followed by no
  closing-marker line, the loop returns the blocks found so far unchanged: nothing is
  emitted for that region, and the function returns normally. A text in which no line is
  a separator, or no line is a closing marker, yields no block at all.
\<close>

theorem unterminated_block_discarded:
  assumes "i < length lines" and "startswith (lines ! i) ''<<<<<<<''"
    and "(\<forall>l \<in> set (drop (i + 1) lines). \<not> startswith l ''======='')
         \<or> (\<exists>ours_lines sep_line rest.
               drop (i + 1) lines = ours_lines @ sep_line # rest
               \<and> (\<forall>l \<in> set ours_lines. \<not> startswith l ''======='')
               \<and> startswith sep_line ''=======''
               \<and> (\<forall>l \<in> set rest. \<not> startswith l ''>>>>>>>''))"
  shows "scan_conflicts lines i conflicts = conflicts
         \<and> ((\<forall>l \<in> set (splitlines content). \<not> startswith l ''======='')
              \<or> (\<forall>l \<in> set (splitlines content). \<not> startswith l ''>>>>>>>'')
            \<longrightarrow> parse_conflict_markers content = [])"
proof
  from assms(3) have c: "conflict_at lines i = (None, length lines)"
  proof
    assume "\<forall>l \<in> set (drop (i + 1) lines). \<not> startswith l ''=======''"
    then have "conflict_at lines i = (None, max (i + 1) (length lines))"
      by (rule conflict_at_no_separator)
    with assms(1) show ?thesis by (simp add: max_def)
  next
    assume "\<exists>ours_lines sep_line rest.
               drop (i + 1) lines = ours_lines @ sep_line # rest
               \<and> (\<forall>l \<in> set ours_lines. \<not> startswith l ''======='')
               \<and> startswith sep_line ''=======''
               \<and> (\<forall>l \<in> set rest. \<not> startswith l ''>>>>>>>'')"
    then show ?thesis by (auto intro: conflict_at_no_closing)
  qed
  have "scan_conflicts lines i conflicts = scan_conflicts lines (length lines + 1) conflicts"
    using assms(1,2) by (subst scan_conflicts.simps) (simp add: c)
  then show "scan_conflicts lines i conflicts = conflicts"
    by (simp add: scan_conflicts_end)
next
  show "(\<forall>l \<in> set (splitlines content). \<not> startswith l ''======='')
              \<or> (\<forall>l \<in> set (splitlines content). \<not> startswith l ''>>>>>>>'')
            \<longrightarrow> parse_conflict_markers content = []"
  proof
    assume h: "(\<forall>l \<in> set (splitlines content). \<not> startswith l ''======='')
              \<or> (\<forall>l \<in> set (splitlines content). \<not> startswith l ''>>>>>>>'')"
    have "\<forall>j. 0 \<le> j \<and> j < length (splitlines content)
              \<and> startswith (splitlines content ! j) ''<<<<<<<''
            \<longrightarrow> fst (conflict_at (splitlines content) j) = None"
    proof (intro allI impI)
      fix j
      have sub: "set (drop j (splitlines content)) \<subseteq> set (splitlines content)"
        by (rule set_drop_subset)
      from h show "fst (conflict_at (splitlines content) j) = None"
      proof
        assume "\<forall>l \<in> set (splitlines content). \<not> startswith l ''=======''"
        with sub have "\<forall>l \<in> set (drop j (splitlines content)). \<not> startswith l ''=======''"
          by blast
        then show ?thesis by (rule conflict_at_none_without_separator)
      next
        assume "\<forall>l \<in> set (splitlines content). \<not> startswith l ''>>>>>>>''"
        with sub have "\<forall>l \<in> set (drop j (splitlines content)). \<not> startswith l ''>>>>>>>''"
          by blast
        then show ?thesis by (rule conflict_at_none_without_closing)
      qed
    qed
    then show "parse_conflict_markers content = []"
      unfolding parse_conflict_markers_def by (rule scan_conflicts_none)
  qed
qed

theorem unterminated_block_discarded_witness:
  "0 < length [''<<<<<<< a\<newline>'', ''x\<newline>'', ''=======\<newline>'', ''y\<newline>'']
   \<and> startswith ([''<<<<<<< a\<newline>'', ''x\<newline>'', ''=======\<newline>'', ''y\<newline>''] ! 0) ''<<<<<<<''
   \<and> drop (0 + 1) [''<<<<<<< a\<newline>'', ''x\<newline>'', ''=======\<newline>'', ''y\<newline>''] = [''x\<newline>''] @ ''=======\<newline>'' # [''y\<newline>'']
   \<and> scan_conflicts [''<<<<<<< a\<newline>'', ''x\<newline>'', ''=======\<newline>'', ''y\<newline>''] 0 [] = []
   \<and> splitlines ''<<<<<<< a\<newline>x\<newline>=======\<newline>y\<newline>'' = [''<<<<<<< a\<newline>'', ''x\<newline>'', ''=======\<newline>'', ''y\<newline>'']
   \<and> parse_conflict_markers ''<<<<<<< a\<newline>x\<newline>=======\<newline>y\<newline>'' = []"
proof -
  have h1: "0 < length [''<<<<<<< a\<newline>'', ''x\<newline>'', ''=======\<newline>'', ''y\<newline>'']" by simp
  have h2: "startswith ([''<<<<<<< a\<newline>'', ''x\<newline>'', ''=======\<newline>'', ''y\<newline>''] ! 0) ''<<<<<<<''" by simp
  have h3: "(\<forall>l \<in> set (drop (0 + 1) [''<<<<<<< a\<newline>'', ''x\<newline>'', ''=======\<newline>'', ''y\<newline>'']). \<not> startswith l ''======='')
         \<or> (\<exists>ours_lines sep_line rest.
               drop (0 + 1) [''<<<<<<< a\<newline>'', ''x\<newline>'', ''=======\<newline>'', ''y\<newline>''] = ours_lines @ sep_line # rest
               \<and> (\<forall>l \<in> set ours_lines. \<not> startswith l ''======='')
               \<and> startswith sep_line ''=======''
               \<and> (\<forall>l \<in> set rest. \<not> startswith l ''>>>>>>>''))"
  proof (intro disjI2 exI conjI)
    show "drop (0 + 1) [''<<<<<<< a\<newline>'', ''x\<newline>'', ''=======\<newline>'', ''y\<newline>''] = [''x\<newline>''] @ ''=======\<newline>'' # [''y\<newline>'']"
      by simp
  qed simp_all
  have h4: "splitlines ''<<<<<<< a\<newline>x\<newline>=======\<newline>y\<newline>'' = [''<<<<<<< a\<newline>'', ''x\<newline>'', ''=======\<newline>'', ''y\<newline>'']"
    by (simp add: splitlines_def is_linebreak_def CR_def LF_def)
  have h5: "\<forall>l \<in> set (splitlines ''<<<<<<< a\<newline>x\<newline>=======\<newline>y\<newline>''). \<not> startswith l ''>>>>>>>''"
    unfolding h4 by simp
  show ?thesis
    using unterminated_block_discarded [OF h1 h2 h3, of "[]" "''<<<<<<< a\<newline>x\<newline>=======\<newline>y\<newline>''"] h4 h5
    by simp
qed

section \<open>Facts about the classifier\<close>

lemma startswith_iff: "startswith s k \<longleftrightarrow> (\<exists>r. s = k @ r)"
  by (induction s k rule: startswith.induct) auto

lemma contains_iff: "contains s k \<longleftrightarrow> (\<exists>p q. s = p @ k @ q)"
proof (induction s)
  case Nil
  then show ?case by auto
next
  case (Cons c cs)
  show ?case
  proof
    assume "contains (c # cs) k"
    then consider "startswith (c # cs) k" | "contains cs k" by auto
    then show "\<exists>p q. c # cs = p @ k @ q"
    proof cases
      case 1
      then obtain r where "c # cs = k @ r" by (auto simp: startswith_iff)
      then have "c # cs = [] @ k @ r" by simp
      then show ?thesis by blast
    next
      case 2
      with Cons obtain p q where "cs = p @ k @ q" by auto
      then have "c # cs = (c # p) @ k @ q" by simp
      then show ?thesis by blast
    qed
  next
    assume "\<exists>p q. c # cs = p @ k @ q"
    then obtain p q where pq: "c # cs = p @ k @ q" by auto
    show "contains (c # cs) k"
    proof (cases p)
      case Nil
      with pq have "startswith (c # cs) k" by (auto simp: startswith_iff)
      then show ?thesis by simp
    next
      case (Cons a p')
      with pq have "cs = p' @ k @ q" by simp
      with Cons.IH have "contains cs k" by blast
      then show ?thesis by simp
    qed
  qed
qed

lemma contains_appendI1: "contains a k \<Longrightarrow> contains (a @ b) k"
proof -
  assume "contains a k"
  then obtain p q where "a = p @ k @ q" by (auto simp: contains_iff)
  then have "a @ b = p @ k @ (q @ b)" by simp
  then show ?thesis unfolding contains_iff by blast
qed

lemma contains_appendI2: "contains b k \<Longrightarrow> contains (a @ b) k"
proof -
  assume "contains b k"
  then obtain p q where "b = p @ k @ q" by (auto simp: contains_iff)
  then have "a @ b = (a @ p) @ k @ q" by simp
  then show ?thesis unfolding contains_iff by blast
qed

lemma categorize_step_shape:
  "\<exists>A B C R. \<forall>ts d. categorize_step m (ts, d) =
     (if A then (ts @ [IMPORT], d)
      else if B then (ts @ [WHITESPACE], d)
      else if C then (ts @ [FUNCTION_SIGNATURE], max_of d MEDIUM)
      else if R then (ts @ [RENAME], max_of d MEDIUM)
      else (ts @ [LOGIC], HARD))"
  unfolding categorize_step_def Let_def prod.case
  by (intro exI allI) (rule refl)

lemma categorize_step_eq:
  "categorize_step m (ts, d) =
     (ts @ [block_type m],
      if block_type m = IMPORT \<or> block_type m = WHITESPACE then d
      else if block_type m = LOGIC then HARD
      else max_of d MEDIUM)"
proof -
  obtain A B C R where sh: "\<And>ts d. categorize_step m (ts, d) =
     (if A then (ts @ [IMPORT], d)
      else if B then (ts @ [WHITESPACE], d)
      else if C then (ts @ [FUNCTION_SIGNATURE], max_of d MEDIUM)
      else if R then (ts @ [RENAME], max_of d MEDIUM)
      else (ts @ [LOGIC], HARD))"
    using categorize_step_shape [of m] by blast
  show ?thesis
    unfolding block_type_def sh by simp
qed

lemma block_type_cases:
  "block_type m = IMPORT \<or> block_type m = WHITESPACE \<or> block_type m = FUNCTION_SIGNATURE
   \<or> block_type m = RENAME \<or> block_type m = LOGIC"
proof -
  obtain A B C R where sh: "\<And>ts d. categorize_step m (ts, d) =
     (if A then (ts @ [IMPORT], d)
      else if B then (ts @ [WHITESPACE], d)
      else if C then (ts @ [FUNCTION_SIGNATURE], max_of d MEDIUM)
      else if R then (ts @ [RENAME], max_of d MEDIUM)
      else (ts @ [LOGIC], HARD))"
    using categorize_step_shape [of m] by blast
  show ?thesis
    unfolding block_type_def sh by simp
qed

lemma categorize_loop_fst:
  "fst (categorize_loop ms (ts, d)) = ts @ map block_type ms"
  by (induction ms arbitrary: ts d) (simp_all add: categorize_step_eq)

lemma order_index_max_of: "order_index (max_of d MEDIUM) = max (order_index d) 1"
  by (cases d) (simp_all add: max_of_def difficulty_lt_def)

lemma categorize_loop_mechanical:
  "\<forall>m \<in> set ms. block_type m = IMPORT \<or> block_type m = WHITESPACE
   \<Longrightarrow> snd (categorize_loop ms (ts, d)) = d"
  by (induction ms arbitrary: ts d) (simp_all add: categorize_step_eq)

lemma categorize_loop_keeps_raised:
  "1 \<le> order_index d \<Longrightarrow> 1 \<le> order_index (snd (categorize_loop ms (ts, d)))"
proof (induction ms arbitrary: ts d)
  case Nil
  then show ?case by simp
next
  case (Cons m ms)
  have "1 \<le> order_index (if block_type m = IMPORT \<or> block_type m = WHITESPACE then d
      else if block_type m = LOGIC then HARD else max_of d MEDIUM)"
    using Cons.prems by (simp add: order_index_max_of)
  from Cons.IH [OF this] show ?case by (simp add: categorize_step_eq)
qed

lemma categorize_loop_raised:
  "\<exists>m \<in> set ms. \<not> (block_type m = IMPORT \<or> block_type m = WHITESPACE)
   \<Longrightarrow> 1 \<le> order_index (snd (categorize_loop ms (ts, d)))"
proof (induction ms arbitrary: ts d)
  case Nil
  then show ?case by simp
next
  case (Cons m ms)
  show ?case
  proof (cases "block_type m = IMPORT \<or> block_type m = WHITESPACE")
    case True
    with Cons.prems have "\<exists>m \<in> set ms. \<not> (block_type m = IMPORT \<or> block_type m = WHITESPACE)"
      by auto
    from Cons.IH [OF this] True show ?thesis by (simp add: categorize_step_eq)
  next
    case False
    then have "1 \<le> order_index (if block_type m = IMPORT \<or> block_type m = WHITESPACE then d
      else if block_type m = LOGIC then HARD else max_of d MEDIUM)"
      by (simp add: order_index_max_of)
    from categorize_loop_keeps_raised [OF this] show ?thesis by (simp add: categorize_step_eq)
  qed
qed

lemma find_priority_LOGIC:
  "find (\<lambda>t. t \<in> set ts) priority = Some LOGIC \<longleftrightarrow> LOGIC \<in> set ts"
  by (auto simp: priority_def)

lemma categorize_markers_fields:
  assumes "ms \<noteq> []"
  shows "all_types (categorize_markers ms) = Some (map block_type ms)"
    and "num_conflicts (categorize_markers ms) = Some (length ms)"
    and "auto_resolvable (categorize_markers ms)
           = list_all (\<lambda>t. t \<in> set [IMPORT, WHITESPACE]) (map block_type ms)"
    and "type (categorize_markers ms) = LOGIC \<longleftrightarrow> LOGIC \<in> set (map block_type ms)"
    and "difficulty (categorize_markers ms) =
           (if type (categorize_markers ms) = LOGIC
            then (if length ms > 3 then ESCALATE else HARD)
            else snd (categorize_loop ms ([], EASY)))"
proof -
  obtain ts d where l: "categorize_loop ms ([], EASY) = (ts, d)" by (metis prod.collapse)
  have ts: "ts = map block_type ms"
    using categorize_loop_fst [of ms "[]" EASY] l by simp
  define p where "p = (if ts = [] then UNKNOWN
                else (case find (\<lambda>t. t \<in> set ts) priority of
                        Some t \<Rightarrow> t
                      | None \<Rightarrow> ts ! 0))"
  have v: "categorize_markers ms =
     \<lparr> type = p, difficulty = (if p = LOGIC then (if length ms > 3 then ESCALATE else HARD) else d),
       auto_resolvable = list_all (\<lambda>t. t \<in> set [IMPORT, WHITESPACE]) ts,
       all_types = Some ts, num_conflicts = Some (length ms), reason = None \<rparr>"
    using assms by (simp add: categorize_markers_def l p_def)
  have ne: "ts \<noteq> []" using assms ts by simp
  have p: "p = LOGIC \<longleftrightarrow> LOGIC \<in> set ts"
  proof (cases "find (\<lambda>t. t \<in> set ts) priority")
    case None
    then have "LOGIC \<notin> set ts" using find_priority_LOGIC [of ts] by simp
    moreover have "ts ! 0 \<in> set ts" using ne by simp
    ultimately have "ts ! 0 \<noteq> LOGIC" by metis
    with None ne \<open>LOGIC \<notin> set ts\<close> show ?thesis by (simp add: p_def)
  next
    case (Some t)
    with ne have "p = t" by (simp add: p_def)
    with Some show ?thesis using find_priority_LOGIC [of ts] by auto
  qed
  show "all_types (categorize_markers ms) = Some (map block_type ms)" by (simp add: v ts)
  show "num_conflicts (categorize_markers ms) = Some (length ms)" by (simp add: v)
  show "auto_resolvable (categorize_markers ms)
           = list_all (\<lambda>t. t \<in> set [IMPORT, WHITESPACE]) (map block_type ms)"
    by (simp add: v ts)
  show "type (categorize_markers ms) = LOGIC \<longleftrightarrow> LOGIC \<in> set (map block_type ms)"
    using p by (simp add: v ts)
  show "difficulty (categorize_markers ms) =
           (if type (categorize_markers ms) = LOGIC
            then (if length ms > 3 then ESCALATE else HARD)
            else snd (categorize_loop ms ([], EASY)))"
    by (simp add: v l)
qed

lemma type_of_empty: "type (categorize_markers []) = UNKNOWN"
  by (simp add: categorize_markers_def)

lemma categorize_step_unfold:
  "categorize_step m (ts, d) =
     (if list_ex (\<lambda>keyword. contains (strip (ours m) @ strip (theirs m)) keyword) import_keywords
      then (ts @ [IMPORT], d)
      else if remove_char LF (remove_char TAB (remove_char (CHR '' '') (strip (ours m))))
                 = remove_char LF (remove_char TAB (remove_char (CHR '' '') (strip (theirs m))))
      then (ts @ [WHITESPACE], d)
      else if list_ex (\<lambda>keyword. contains (strip (ours m) @ strip (theirs m)) keyword)
                definition_keywords
      then (ts @ [FUNCTION_SIGNATURE], max_of d MEDIUM)
      else if \<not> (\<exists>x \<in> symmetric_difference (set (findall_words (strip (ours m))))
                         (set (findall_words (strip (theirs m)))). isdigit x)
              \<and> card (symmetric_difference (set (findall_words (strip (ours m))))
                         (set (findall_words (strip (theirs m))))) < 3
              \<and> card (set (findall_words (strip (ours m)))) > 0
      then (ts @ [RENAME], max_of d MEDIUM)
      else (ts @ [LOGIC], HARD))"
  unfolding categorize_step_def Let_def prod.case by (rule refl)

lemma isspace_not_isword: "isspace c \<Longrightarrow> \<not> isword c"
  by (auto simp: isspace_def isword_def)

lemma word_runs_no_words:
  "\<forall>c \<in> set ys. \<not> isword c \<Longrightarrow> word_runs cur ys = (if cur = [] then [] else [cur])"
  by (induction ys arbitrary: cur) auto

lemma word_runs_skip_prefix:
  "\<forall>c \<in> set xs. \<not> isword c \<Longrightarrow> word_runs [] (xs @ ys) = word_runs [] ys"
  by (induction xs) auto

lemma word_runs_skip_suffix:
  "\<forall>c \<in> set ys. \<not> isword c \<Longrightarrow> word_runs cur (xs @ ys) = word_runs cur xs"
proof (induction xs arbitrary: cur)
  case Nil
  then show ?case by (simp add: word_runs_no_words)
next
  case (Cons x xs)
  then show ?case by simp
qed

lemma strip_decompose:
  "s = takeWhile isspace s @ strip s @ rev (takeWhile isspace (rev (dropWhile isspace s)))"
proof -
  define t where "t = dropWhile isspace s"
  have "rev (dropWhile isspace (rev t)) @ rev (takeWhile isspace (rev t))
          = rev (takeWhile isspace (rev t) @ dropWhile isspace (rev t))"
    by (simp only: rev_append)
  also have "\<dots> = rev (rev t)" by (simp only: takeWhile_dropWhile_id)
  finally have "t = rev (dropWhile isspace (rev t)) @ rev (takeWhile isspace (rev t))"
    by simp
  moreover have "s = takeWhile isspace s @ t" by (simp add: t_def)
  ultimately show ?thesis by (simp add: strip_def t_def [symmetric])
qed

lemma findall_words_strip: "findall_words (strip s) = findall_words s"
proof -
  define pre where "pre = takeWhile isspace s"
  define suf where "suf = rev (takeWhile isspace (rev (dropWhile isspace s)))"
  have s: "s = pre @ strip s @ suf" unfolding pre_def suf_def by (rule strip_decompose)
  have p: "\<forall>c \<in> set pre. \<not> isword c"
    unfolding pre_def by (auto dest: set_takeWhileD isspace_not_isword)
  have q: "\<forall>c \<in> set suf. \<not> isword c"
    unfolding suf_def by (auto dest: set_takeWhileD isspace_not_isword)
  have "findall_words s = word_runs [] (pre @ strip s @ suf)"
    using s by (simp add: findall_words_def)
  also have "\<dots> = word_runs [] (strip s @ suf)" using p by (rule word_runs_skip_prefix)
  also have "\<dots> = word_runs [] (strip s)" using q by (rule word_runs_skip_suffix)
  finally show ?thesis by (simp add: findall_words_def)
qed

text \<open>
  Claim C2. Whenever the verdict's type is \<open>LOGIC\<close>, its difficulty is \<open>HARD\<close> if the
  file has at most 3 parsed blocks and \<open>ESCALATE\<close> if it has more. In particular four
  blocks that are all classified \<open>LOGIC\<close> give \<open>ESCALATE\<close>, and one \<open>LOGIC\<close> block alone
  gives \<open>HARD\<close>.
\<close>

theorem logic_difficulty:
  assumes "extract_three_way_markers fs path = markers"
  shows "(type (categorize_conflict fs path) = LOGIC \<longrightarrow>
            difficulty (categorize_conflict fs path)
              = (if length markers \<le> 3 then HARD else ESCALATE))
       \<and> (length ms = 4 \<and> (\<forall>m \<in> set ms. block_type m = LOGIC) \<longrightarrow>
            difficulty (categorize_markers ms) = ESCALATE)
       \<and> (block_type m = LOGIC \<longrightarrow> difficulty (categorize_markers [m]) = HARD)"
proof (intro conjI impI)
  assume t: "type (categorize_conflict fs path) = LOGIC"
  then have "type (categorize_markers markers) = LOGIC"
    using assms by (simp add: categorize_conflict_def)
  moreover from this have "markers \<noteq> []" using type_of_empty by auto
  ultimately show "difficulty (categorize_conflict fs path)
              = (if length markers \<le> 3 then HARD else ESCALATE)"
    using categorize_markers_fields(5) [of markers] assms
    by (simp add: categorize_conflict_def)
next
  assume a: "length ms = 4 \<and> (\<forall>m \<in> set ms. block_type m = LOGIC)"
  then have ne: "ms \<noteq> []" by auto
  then obtain x where "x \<in> set ms" by (cases ms) auto
  with a have "LOGIC \<in> set (map block_type ms)" by force
  then have "type (categorize_markers ms) = LOGIC"
    using categorize_markers_fields(4) [OF ne] by simp
  with a show "difficulty (categorize_markers ms) = ESCALATE"
    using categorize_markers_fields(5) [OF ne] by simp
next
  assume a: "block_type m = LOGIC"
  have ne: "[m] \<noteq> []" by simp
  have "type (categorize_markers [m]) = LOGIC"
    using categorize_markers_fields(4) [OF ne] a by simp
  then show "difficulty (categorize_markers [m]) = HARD"
    using categorize_markers_fields(5) [OF ne] by simp
qed

theorem logic_difficulty_witness:
  "extract_three_way_markers
      (\<lambda>p. Inr ''<<<<<<< a\<newline>retries = 2\<newline>=======\<newline>retries = 3\<newline>>>>>>>> b\<newline>'') ''f.py''
     = [\<lparr> start_line = 1, end_line = 5, ours = ''retries = 2\<newline>'', theirs = ''retries = 3\<newline>'',
          ours_label = ''<<<<<<< a'', theirs_label = ''>>>>>>> b'' \<rparr>]
   \<and> type (categorize_conflict
      (\<lambda>p. Inr ''<<<<<<< a\<newline>retries = 2\<newline>=======\<newline>retries = 3\<newline>>>>>>>> b\<newline>'') ''f.py'') = LOGIC
   \<and> difficulty (categorize_conflict
      (\<lambda>p. Inr ''<<<<<<< a\<newline>retries = 2\<newline>=======\<newline>retries = 3\<newline>>>>>>>> b\<newline>'') ''f.py'') = HARD
   \<and> block_type \<lparr> start_line = 1, end_line = 5, ours = ''retries = 2\<newline>'', theirs = ''retries = 3\<newline>'',
          ours_label = ''<<<<<<< a'', theirs_label = ''>>>>>>> b'' \<rparr> = LOGIC
   \<and> difficulty (categorize_markers (replicate 4
         \<lparr> start_line = 1, end_line = 5, ours = ''retries = 2\<newline>'', theirs = ''retries = 3\<newline>'',
          ours_label = ''<<<<<<< a'', theirs_label = ''>>>>>>> b'' \<rparr>)) = ESCALATE
   \<and> difficulty (categorize_markers
         [\<lparr> start_line = 1, end_line = 5, ours = ''retries = 2\<newline>'', theirs = ''retries = 3\<newline>'',
          ours_label = ''<<<<<<< a'', theirs_label = ''>>>>>>> b'' \<rparr>]) = HARD"
proof -
  have h: "extract_three_way_markers
      (\<lambda>p. Inr ''<<<<<<< a\<newline>retries = 2\<newline>=======\<newline>retries = 3\<newline>>>>>>>> b\<newline>'') ''f.py''
     = [\<lparr> start_line = 1, end_line = 5, ours = ''retries = 2\<newline>'', theirs = ''retries = 3\<newline>'',
          ours_label = ''<<<<<<< a'', theirs_label = ''>>>>>>> b'' \<rparr>]"
    by code_simp
  have t: "type (categorize_conflict
      (\<lambda>p. Inr ''<<<<<<< a\<newline>retries = 2\<newline>=======\<newline>retries = 3\<newline>>>>>>>> b\<newline>'') ''f.py'') = LOGIC"
    by code_simp
  have b: "block_type \<lparr> start_line = 1, end_line = 5, ours = ''retries = 2\<newline>'', theirs = ''retries = 3\<newline>'',
          ours_label = ''<<<<<<< a'', theirs_label = ''>>>>>>> b'' \<rparr> = LOGIC"
    by code_simp
  show ?thesis
    using logic_difficulty [OF h, of "replicate 4
         \<lparr> start_line = 1, end_line = 5, ours = ''retries = 2\<newline>'', theirs = ''retries = 3\<newline>'',
          ours_label = ''<<<<<<< a'', theirs_label = ''>>>>>>> b'' \<rparr>"
         "\<lparr> start_line = 1, end_line = 5, ours = ''retries = 2\<newline>'', theirs = ''retries = 3\<newline>'',
          ours_label = ''<<<<<<< a'', theirs_label = ''>>>>>>> b'' \<rparr>"] h t b
    by simp
qed

text \<open>
  Claim C3. For a file with at least one parsed block, \<open>all_types\<close> is the sequence of
  the blocks' types, and \<open>auto_resolvable\<close> is true exactly when every entry of that
  sequence is \<open>IMPORT\<close> or \<open>WHITESPACE\<close>.
\<close>

theorem auto_resolvable_iff_mechanical:
  assumes "extract_three_way_markers fs path = markers" and "markers \<noteq> []"
  shows "all_types (categorize_conflict fs path) = Some (map block_type markers)
       \<and> (auto_resolvable (categorize_conflict fs path)
            \<longleftrightarrow> (\<forall>t \<in> set (map block_type markers). t = IMPORT \<or> t = WHITESPACE))"
  using categorize_markers_fields(1,3) [OF assms(2)] assms(1)
  by (simp add: categorize_conflict_def list_all_iff)

theorem auto_resolvable_iff_mechanical_witness:
  "extract_three_way_markers
      (\<lambda>p. Inr ''<<<<<<< a\<newline>import foo\<newline>=======\<newline>import bar\<newline>>>>>>>> b\<newline>'') ''f.py''
     = [\<lparr> start_line = 1, end_line = 5, ours = ''import foo\<newline>'', theirs = ''import bar\<newline>'',
          ours_label = ''<<<<<<< a'', theirs_label = ''>>>>>>> b'' \<rparr>]
   \<and> all_types (categorize_conflict
      (\<lambda>p. Inr ''<<<<<<< a\<newline>import foo\<newline>=======\<newline>import bar\<newline>>>>>>>> b\<newline>'') ''f.py'')
     = Some [IMPORT]
   \<and> auto_resolvable (categorize_conflict
      (\<lambda>p. Inr ''<<<<<<< a\<newline>import foo\<newline>=======\<newline>import bar\<newline>>>>>>>> b\<newline>'') ''f.py'')"
proof -
  have h: "extract_three_way_markers
      (\<lambda>p. Inr ''<<<<<<< a\<newline>import foo\<newline>=======\<newline>import bar\<newline>>>>>>>> b\<newline>'') ''f.py''
     = [\<lparr> start_line = 1, end_line = 5, ours = ''import foo\<newline>'', theirs = ''import bar\<newline>'',
          ours_label = ''<<<<<<< a'', theirs_label = ''>>>>>>> b'' \<rparr>]"
    by code_simp
  have n: "[\<lparr> start_line = 1, end_line = 5, ours = ''import foo\<newline>'', theirs = ''import bar\<newline>'',
          ours_label = ''<<<<<<< a'', theirs_label = ''>>>>>>> b'' \<rparr>] \<noteq> []"
    by simp
  have b: "block_type \<lparr> start_line = 1, end_line = 5, ours = ''import foo\<newline>'', theirs = ''import bar\<newline>'',
          ours_label = ''<<<<<<< a'', theirs_label = ''>>>>>>> b'' \<rparr> = IMPORT"
    by code_simp
  show ?thesis
    using auto_resolvable_iff_mechanical [OF h n] h b by simp
qed

text \<open>
  Claim C5. For a block that reaches rule 4 (no import substring, sides not equal up to
  spaces, tabs and newlines, no definition keyword): with \<open>W_ours\<close> and \<open>W_theirs\<close> the
  sets of word tokens of the two sides and \<open>D\<close> their symmetric difference, the block is
  \<open>RENAME\<close>, and the running difficulty becomes its maximum with \<open>MEDIUM\<close>, exactly
  when no token of \<open>D\<close> is purely numeric, \<open>D\<close> has fewer than 3 tokens and \<open>W_ours\<close> is
  not empty; otherwise the block is \<open>LOGIC\<close>. The sides \<open>retries = 2\<close> and \<open>retries = 3\<close>
  give \<open>LOGIC\<close>.
\<close>

theorem rename_rule:
  assumes "\<not> list_ex (\<lambda>keyword. contains (strip (ours m) @ strip (theirs m)) keyword)
               import_keywords"
    and "remove_char LF (remove_char TAB (remove_char (CHR '' '') (strip (ours m))))
           \<noteq> remove_char LF (remove_char TAB (remove_char (CHR '' '') (strip (theirs m))))"
    and "\<not> list_ex (\<lambda>keyword. contains (strip (ours m) @ strip (theirs m)) keyword)
               definition_keywords"
  shows "(let W_ours = set (findall_words (ours m));
              W_theirs = set (findall_words (theirs m));
              D = symmetric_difference W_ours W_theirs;
              is_rename = ((\<forall>x \<in> D. \<not> isdigit x) \<and> card D < 3 \<and> W_ours \<noteq> {})
          in categorize_step m (ts, d) =
               (if is_rename then (ts @ [RENAME], max_of d MEDIUM) else (ts @ [LOGIC], HARD))
             \<and> block_type m = (if is_rename then RENAME else LOGIC))
       \<and> order_index MEDIUM \<le> order_index (max_of d MEDIUM)
       \<and> order_index d \<le> order_index (max_of d MEDIUM)
       \<and> block_type \<lparr> start_line = 1, end_line = 5, ours = ''retries = 2'',
                       theirs = ''retries = 3'', ours_label = ''<<<<<<< a'',
                       theirs_label = ''>>>>>>> b'' \<rparr> = LOGIC"
proof -
  define D where "D = symmetric_difference (set (findall_words (ours m)))
                        (set (findall_words (theirs m)))"
  define is_rename where
    "is_rename \<longleftrightarrow> (\<forall>x \<in> D. \<not> isdigit x) \<and> card D < 3 \<and> set (findall_words (ours m)) \<noteq> {}"
  have c: "card (set (findall_words (ours m))) > 0 \<longleftrightarrow> set (findall_words (ours m)) \<noteq> {}"
    by (simp add: card_gt_0_iff)
  have r: "(\<not> (\<exists>x \<in> D. isdigit x) \<and> card D < 3 \<and> card (set (findall_words (ours m))) > 0)
             \<longleftrightarrow> is_rename"
    unfolding is_rename_def c by blast
  have step: "categorize_step m (ts, d) =
               (if is_rename then (ts @ [RENAME], max_of d MEDIUM) else (ts @ [LOGIC], HARD))"
    for ts d
    unfolding categorize_step_unfold findall_words_strip D_def [symmetric] r
    using assms by (simp only: if_False)
  have bt: "block_type m = (if is_rename then RENAME else LOGIC)"
    unfolding block_type_def step by simp
  have ex: "block_type \<lparr> start_line = 1, end_line = 5, ours = ''retries = 2'',
                       theirs = ''retries = 3'', ours_label = ''<<<<<<< a'',
                       theirs_label = ''>>>>>>> b'' \<rparr> = LOGIC"
    by code_simp
  have o: "order_index MEDIUM \<le> order_index (max_of d MEDIUM)
       \<and> order_index d \<le> order_index (max_of d MEDIUM)"
    by (simp add: order_index_max_of)
  show ?thesis
    using step [of ts d] bt ex o
    by (simp only: Let_def D_def [symmetric] is_rename_def [symmetric])
qed

theorem rename_rule_witness:
  "\<not> list_ex (\<lambda>keyword. contains (strip ''total = old_name + 1'' @ strip ''total = new_name + 1'') keyword)
       import_keywords
   \<and> remove_char LF (remove_char TAB (remove_char (CHR '' '') (strip ''total = old_name + 1'')))
       \<noteq> remove_char LF (remove_char TAB (remove_char (CHR '' '') (strip ''total = new_name + 1'')))
   \<and> \<not> list_ex (\<lambda>keyword. contains (strip ''total = old_name + 1'' @ strip ''total = new_name + 1'') keyword)
       definition_keywords
   \<and> symmetric_difference (set (findall_words ''total = old_name + 1''))
        (set (findall_words ''total = new_name + 1'')) = {''old_name'', ''new_name''}
   \<and> categorize_step \<lparr> start_line = 1, end_line = 5, ours = ''total = old_name + 1'',
         theirs = ''total = new_name + 1'', ours_label = ''<<<<<<< a'',
         theirs_label = ''>>>>>>> b'' \<rparr> ([], EASY) = ([RENAME], MEDIUM)"
proof -
  define m where "m = \<lparr> start_line = 1, end_line = 5, ours = ''total = old_name + 1'',
         theirs = ''total = new_name + 1'', ours_label = ''<<<<<<< a'',
         theirs_label = ''>>>>>>> b'' \<rparr>"
  have h1: "\<not> list_ex (\<lambda>keyword. contains (strip (ours m) @ strip (theirs m)) keyword)
       import_keywords"
    unfolding m_def by code_simp
  have h2: "remove_char LF (remove_char TAB (remove_char (CHR '' '') (strip (ours m))))
       \<noteq> remove_char LF (remove_char TAB (remove_char (CHR '' '') (strip (theirs m))))"
    unfolding m_def by code_simp
  have h3: "\<not> list_ex (\<lambda>keyword. contains (strip (ours m) @ strip (theirs m)) keyword)
       definition_keywords"
    unfolding m_def by code_simp
  have d: "symmetric_difference (set (findall_words ''total = old_name + 1''))
        (set (findall_words ''total = new_name + 1'')) = {''old_name'', ''new_name''}"
    by code_simp
  have s: "categorize_step m ([], EASY) = ([RENAME], MEDIUM)"
    unfolding m_def by code_simp
  show ?thesis
    using rename_rule [OF h1 h2 h3, of "[]" EASY] h1 h2 h3 d s
    by (simp add: m_def)
qed

text \<open>
  Claim C6, as the code has it. A block is classified \<open>IMPORT\<close> exactly when the
  concatenation of its stripped \<open>ours\<close> text and its stripped \<open>theirs\<close> text contains one
  of the import keywords; this is so in particular when one stripped side alone contains
  one. The sides \<open>import foo\<close> and \<open>import bar\<close> give \<open>IMPORT\<close>.
\<close>

theorem import_rule:
  "(block_type m = IMPORT \<longleftrightarrow>
      (\<exists>k \<in> set import_keywords. contains (strip (ours m) @ strip (theirs m)) k))
   \<and> ((\<exists>k \<in> set import_keywords. contains (strip (ours m)) k \<or> contains (strip (theirs m)) k)
        \<longrightarrow> block_type m = IMPORT)
   \<and> block_type \<lparr> start_line = 1, end_line = 5, ours = ''import foo'',
                   theirs = ''import bar'', ours_label = ''<<<<<<< a'',
                   theirs_label = ''>>>>>>> b'' \<rparr> = IMPORT"
proof -
  have first: "block_type m = IMPORT \<longleftrightarrow>
      (\<exists>k \<in> set import_keywords. contains (strip (ours m) @ strip (theirs m)) k)"
  proof (cases "list_ex (\<lambda>keyword. contains (strip (ours m) @ strip (theirs m)) keyword)
                  import_keywords")
    case True
    then have "block_type m = IMPORT"
      unfolding block_type_def categorize_step_unfold by simp
    with True show ?thesis by (simp add: list_ex_iff)
  next
    case False
    then have "block_type m \<noteq> IMPORT"
      unfolding block_type_def categorize_step_unfold by (simp only: if_False) simp
    with False show ?thesis by (simp add: list_ex_iff)
  qed
  have second: "block_type m = IMPORT"
    if "\<exists>k \<in> set import_keywords. contains (strip (ours m)) k \<or> contains (strip (theirs m)) k"
  proof -
    from that obtain k where "k \<in> set import_keywords"
      and "contains (strip (ours m)) k \<or> contains (strip (theirs m)) k" by blast
    then have "k \<in> set import_keywords \<and> contains (strip (ours m) @ strip (theirs m)) k"
      by (auto intro: contains_appendI1 contains_appendI2)
    then show ?thesis unfolding first by blast
  qed
  have ex: "block_type \<lparr> start_line = 1, end_line = 5, ours = ''import foo'',
                   theirs = ''import bar'', ours_label = ''<<<<<<< a'',
                   theirs_label = ''>>>>>>> b'' \<rparr> = IMPORT"
    by code_simp
  from first second ex show ?thesis by blast
qed

theorem import_rule_witness:
  "''import '' \<in> set import_keywords
   \<and> contains (strip ''import foo'') ''import ''
   \<and> block_type \<lparr> start_line = 1, end_line = 5, ours = ''import foo'',
                   theirs = ''import bar'', ours_label = ''<<<<<<< a'',
                   theirs_label = ''>>>>>>> b'' \<rparr> = IMPORT"
proof -
  have k: "''import '' \<in> set import_keywords" by (simp add: import_keywords_def)
  have c: "contains (strip ''import foo'') ''import ''" by code_simp
  show ?thesis
    using import_rule [of "\<lparr> start_line = 1, end_line = 5, ours = ''import foo'',
                   theirs = ''import bar'', ours_label = ''<<<<<<< a'',
                   theirs_label = ''>>>>>>> b'' \<rparr>"] k c
    by simp
qed

text \<open>
  The claim as stated fails in both directions: a keyword that only arises where the
  two stripped sides are joined makes the block \<open>IMPORT\<close> although neither side contains
  it, and a side whose only keyword occurrence ends in the whitespace that \<open>strip\<close>
  removes does not make the block \<open>IMPORT\<close>.
\<close>

theorem import_rule_counterexample:
  "block_type \<lparr> start_line = 1, end_line = 5, ours = ''#inc\<newline>'', theirs = ''lude <x.h>\<newline>'',
      ours_label = ''<<<<<<< a'', theirs_label = ''>>>>>>> b'' \<rparr> = IMPORT
   \<and> \<not> list_ex (contains ''#inc\<newline>'') import_keywords
   \<and> \<not> list_ex (contains ''lude <x.h>\<newline>'') import_keywords
   \<and> contains ''import \<newline>'' ''import ''
   \<and> block_type \<lparr> start_line = 1, end_line = 5, ours = ''import \<newline>'', theirs = ''foo\<newline>'',
      ours_label = ''<<<<<<< a'', theirs_label = ''>>>>>>> b'' \<rparr> = RENAME"
  by code_simp

text \<open>
  Claim C10. For a file with at least one parsed block, \<open>auto_resolvable\<close> is true
  exactly when the difficulty is \<open>EASY\<close>. Blocks that are all \<open>IMPORT\<close> or \<open>WHITESPACE\<close>
  leave the running maximum at \<open>EASY\<close>; a block that is \<open>FUNCTION_SIGNATURE\<close>, \<open>RENAME\<close>
  or \<open>LOGIC\<close> makes the difficulty at least \<open>MEDIUM\<close> and \<open>auto_resolvable\<close> false.
\<close>

theorem auto_resolvable_iff_easy:
  assumes "extract_three_way_markers fs path = markers" and "markers \<noteq> []"
  shows "(auto_resolvable (categorize_conflict fs path)
            \<longleftrightarrow> difficulty (categorize_conflict fs path) = EASY)
       \<and> (ms \<noteq> [] \<and> (\<forall>m \<in> set ms. block_type m = IMPORT \<or> block_type m = WHITESPACE) \<longrightarrow>
            snd (categorize_loop ms ([], EASY)) = EASY
            \<and> difficulty (categorize_markers ms) = EASY
            \<and> auto_resolvable (categorize_markers ms))
       \<and> ((\<exists>m \<in> set ms'. block_type m = FUNCTION_SIGNATURE \<or> block_type m = RENAME
                            \<or> block_type m = LOGIC) \<longrightarrow>
            order_index MEDIUM \<le> order_index (difficulty (categorize_markers ms'))
            \<and> \<not> auto_resolvable (categorize_markers ms'))"
proof -
  have mech: "snd (categorize_loop xs ([], EASY)) = EASY
            \<and> difficulty (categorize_markers xs) = EASY
            \<and> auto_resolvable (categorize_markers xs)"
    if ne: "xs \<noteq> []" and all: "\<forall>m \<in> set xs. block_type m = IMPORT \<or> block_type m = WHITESPACE"
    for xs
  proof -
    have l: "snd (categorize_loop xs ([], EASY)) = EASY"
      using categorize_loop_mechanical [OF all] .
    have "LOGIC \<notin> set (map block_type xs)" using all by auto
    then have "type (categorize_markers xs) \<noteq> LOGIC"
      using categorize_markers_fields(4) [OF ne] by simp
    then have d: "difficulty (categorize_markers xs) = EASY"
      using categorize_markers_fields(5) [OF ne] l by simp
    have "auto_resolvable (categorize_markers xs)"
      using categorize_markers_fields(3) [OF ne] all by (simp add: list_all_iff)
    with l d show ?thesis by simp
  qed
  have other: "order_index MEDIUM \<le> order_index (difficulty (categorize_markers xs))
            \<and> \<not> auto_resolvable (categorize_markers xs)"
    if ex: "\<exists>m \<in> set xs. \<not> (block_type m = IMPORT \<or> block_type m = WHITESPACE)"
    for xs
  proof -
    from ex have ne: "xs \<noteq> []" by auto
    have "1 \<le> order_index (snd (categorize_loop xs ([], EASY)))"
      using categorize_loop_raised [OF ex] .
    then have "1 \<le> order_index (difficulty (categorize_markers xs))"
      using categorize_markers_fields(5) [OF ne] by simp
    moreover have "\<not> auto_resolvable (categorize_markers xs)"
      using categorize_markers_fields(3) [OF ne] ex by (auto simp: list_all_iff)
    ultimately show ?thesis by simp
  qed
  have first: "auto_resolvable (categorize_markers markers)
            \<longleftrightarrow> difficulty (categorize_markers markers) = EASY"
  proof (cases "\<forall>m \<in> set markers. block_type m = IMPORT \<or> block_type m = WHITESPACE")
    case True
    from mech [OF assms(2) True] show ?thesis by simp
  next
    case False
    then have "\<exists>m \<in> set markers. \<not> (block_type m = IMPORT \<or> block_type m = WHITESPACE)"
      by simp
    from other [OF this] show ?thesis by auto
  qed
  have third: "order_index MEDIUM \<le> order_index (difficulty (categorize_markers ms'))
            \<and> \<not> auto_resolvable (categorize_markers ms')"
    if "\<exists>m \<in> set ms'. block_type m = FUNCTION_SIGNATURE \<or> block_type m = RENAME
                            \<or> block_type m = LOGIC"
  proof -
    from that obtain x where "x \<in> set ms'"
      and "block_type x = FUNCTION_SIGNATURE \<or> block_type x = RENAME \<or> block_type x = LOGIC"
      by blast
    then have "x \<in> set ms' \<and> \<not> (block_type x = IMPORT \<or> block_type x = WHITESPACE)"
      by auto
    then have "\<exists>m \<in> set ms'. \<not> (block_type m = IMPORT \<or> block_type m = WHITESPACE)"
      by blast
    from other [OF this] show ?thesis .
  qed
  from first mech [of ms] third assms(1) show ?thesis
    by (simp add: categorize_conflict_def)
qed

theorem auto_resolvable_iff_easy_witness:
  "extract_three_way_markers
      (\<lambda>p. Inr ''<<<<<<< a\<newline>x = 1\<newline>=======\<newline>x=1\<newline>>>>>>>> b\<newline>'') ''f.py''
     = [\<lparr> start_line = 1, end_line = 5, ours = ''x = 1\<newline>'', theirs = ''x=1\<newline>'',
          ours_label = ''<<<<<<< a'', theirs_label = ''>>>>>>> b'' \<rparr>]
   \<and> auto_resolvable (categorize_conflict
      (\<lambda>p. Inr ''<<<<<<< a\<newline>x = 1\<newline>=======\<newline>x=1\<newline>>>>>>>> b\<newline>'') ''f.py'')
   \<and> difficulty (categorize_conflict
      (\<lambda>p. Inr ''<<<<<<< a\<newline>x = 1\<newline>=======\<newline>x=1\<newline>>>>>>>> b\<newline>'') ''f.py'') = EASY
   \<and> block_type \<lparr> start_line = 1, end_line = 5, ours = ''x = 1\<newline>'', theirs = ''x=1\<newline>'',
          ours_label = ''<<<<<<< a'', theirs_label = ''>>>>>>> b'' \<rparr> = WHITESPACE
   \<and> block_type \<lparr> start_line = 7, end_line = 11, ours = ''def handle(x):\<newline>'',
          theirs = ''def handle(x, y):\<newline>'',
          ours_label = ''<<<<<<< a'', theirs_label = ''>>>>>>> b'' \<rparr> = FUNCTION_SIGNATURE
   \<and> order_index MEDIUM \<le> order_index (difficulty (categorize_markers
        [\<lparr> start_line = 1, end_line = 5, ours = ''x = 1\<newline>'', theirs = ''x=1\<newline>'',
          ours_label = ''<<<<<<< a'', theirs_label = ''>>>>>>> b'' \<rparr>,
         \<lparr> start_line = 7, end_line = 11, ours = ''def handle(x):\<newline>'',
          theirs = ''def handle(x, y):\<newline>'',
          ours_label = ''<<<<<<< a'', theirs_label = ''>>>>>>> b'' \<rparr>]))
   \<and> \<not> auto_resolvable (categorize_markers
        [\<lparr> start_line = 1, end_line = 5, ours = ''x = 1\<newline>'', theirs = ''x=1\<newline>'',
          ours_label = ''<<<<<<< a'', theirs_label = ''>>>>>>> b'' \<rparr>,
         \<lparr> start_line = 7, end_line = 11, ours = ''def handle(x):\<newline>'',
          theirs = ''def handle(x, y):\<newline>'',
          ours_label = ''<<<<<<< a'', theirs_label = ''>>>>>>> b'' \<rparr>])"
proof -
  have h: "extract_three_way_markers
      (\<lambda>p. Inr ''<<<<<<< a\<newline>x = 1\<newline>=======\<newline>x=1\<newline>>>>>>>> b\<newline>'') ''f.py''
     = [\<lparr> start_line = 1, end_line = 5, ours = ''x = 1\<newline>'', theirs = ''x=1\<newline>'',
          ours_label = ''<<<<<<< a'', theirs_label = ''>>>>>>> b'' \<rparr>]"
    by code_simp
  have n: "[\<lparr> start_line = 1, end_line = 5, ours = ''x = 1\<newline>'', theirs = ''x=1\<newline>'',
          ours_label = ''<<<<<<< a'', theirs_label = ''>>>>>>> b'' \<rparr>] \<noteq> []"
    by simp
  have b1: "block_type \<lparr> start_line = 1, end_line = 5, ours = ''x = 1\<newline>'', theirs = ''x=1\<newline>'',
          ours_label = ''<<<<<<< a'', theirs_label = ''>>>>>>> b'' \<rparr> = WHITESPACE"
    by code_simp
  have b2: "block_type \<lparr> start_line = 7, end_line = 11, ours = ''def handle(x):\<newline>'',
          theirs = ''def handle(x, y):\<newline>'',
          ours_label = ''<<<<<<< a'', theirs_label = ''>>>>>>> b'' \<rparr> = FUNCTION_SIGNATURE"
    by code_simp
  show ?thesis
    using auto_resolvable_iff_easy [OF h n,
        of "[\<lparr> start_line = 1, end_line = 5, ours = ''x = 1\<newline>'', theirs = ''x=1\<newline>'',
          ours_label = ''<<<<<<< a'', theirs_label = ''>>>>>>> b'' \<rparr>]"
        "[\<lparr> start_line = 1, end_line = 5, ours = ''x = 1\<newline>'', theirs = ''x=1\<newline>'',
          ours_label = ''<<<<<<< a'', theirs_label = ''>>>>>>> b'' \<rparr>,
         \<lparr> start_line = 7, end_line = 11, ours = ''def handle(x):\<newline>'',
          theirs = ''def handle(x, y):\<newline>'',
          ours_label = ''<<<<<<< a'', theirs_label = ''>>>>>>> b'' \<rparr>]"] h b1 b2
    by (simp add: categorize_conflict_def)
qed

section \<open>Facts about the validation gate and the dependency scanner\<close>




text \<open>
  Claim C9. \<open>analyze_dependencies\<close> returns three lists: at most 20 imports, at most 20
  functions and no variables, whatever the regular expressions match; when the file
  cannot be read, all three lists are empty and no error is raised.
\<close>

theorem dependency_lists_bounded:
  "length (dep_imports (analyze_dependencies re_findall fs path)) \<le> 20
   \<and> length (dep_functions (analyze_dependencies re_findall fs path)) \<le> 20
   \<and> dep_variables (analyze_dependencies re_findall fs path) = []
   \<and> (fs path = Inl e \<longrightarrow>
        analyze_dependencies re_findall fs path
          = \<lparr> dep_imports = [], dep_functions = [], dep_variables = [] \<rparr>)"
  by (cases "fs path") (simp_all add: analyze_dependencies_def Let_def)

theorem dependency_lists_bounded_witness:
  "(\<lambda>p. Inl ''No such file'') ''f.py'' = (Inl ''No such file'' :: string + string)
   \<and> analyze_dependencies (\<lambda>p content. replicate 30 content) (\<lambda>p. Inl ''No such file'') ''f.py''
       = \<lparr> dep_imports = [], dep_functions = [], dep_variables = [] \<rparr>
   \<and> length (dep_imports (analyze_dependencies (\<lambda>p content. replicate 30 content)
                 (\<lambda>p. Inr ''import os'') ''f.py'')) = 20"
proof -
  have h: "(\<lambda>p. Inl ''No such file'') ''f.py'' = (Inl ''No such file'' :: string + string)" by simp
  have l: "length (dep_imports (analyze_dependencies (\<lambda>p content. replicate 30 content)
                 (\<lambda>p. Inr ''import os'') ''f.py'')) = 20"
    by (simp add: analyze_dependencies_def import_patterns_def)
  show ?thesis
    using dependency_lists_bounded [of "\<lambda>p content. replicate 30 content"
        "\<lambda>p. Inl ''No such file''" "''f.py''" "''No such file''"] h l
    by simp
qed

end
